theory Spec2Isabelle
  imports Main
begin

section \<open>Data model of \<open>Main.py\<close>\<close>

text \<open>
  The dataclass \<open>PayhipOrder\<close>. The fields carry the types the dataclass declares:
  four strings and a list of string-to-string dictionaries. A dictionary of an item is an
  association list; \<open>map_of\<close> reads it. The Python field \<open>id\<close> is \<open>order_id\<close> and
  \<open>total\<close> is \<open>order_total\<close> here, since \<open>id\<close> and \<open>total\<close> are constants of HOL.
\<close>

type_synonym item = "(string \<times> string) list"

record payhip_order =
  order_id :: string
  status :: string
  order_total :: string
  customer_email :: string
  items :: "item list"

text \<open>
  The state of a \<open>PayhipMonitor\<close>: the configuration read by \<open>__init__\<close>, the set
  \<open>processed_orders\<close>, the flag \<open>bot_running\<close>, the deque \<open>gui_log\<close> with its joined text
  \<open>log_content\<close>. The Discord client and the task \<open>check_orders\<close> are objects of a
  library; of them the state keeps what \<open>stop_bot\<close> does to them: how often
  \<open>check_orders.stop()\<close> was called and how many threads were started on \<open>bot.close\<close>.
\<close>

record monitor =
  payhip_key :: string
  discord_token :: string
  channel_id :: int
  poll_interval :: int
  processed_orders :: "string set"
  bot_running :: bool
  gui_log :: "string list"
  log_content :: string
  task_stop_calls :: nat
  close_threads :: nat

definition init_monitor :: "string \<Rightarrow> string \<Rightarrow> int \<Rightarrow> int \<Rightarrow> monitor" where
  "init_monitor key token chan interval =
     \<lparr> payhip_key = key, discord_token = token, channel_id = chan,
       poll_interval = interval, processed_orders = {}, bot_running = False,
       gui_log = [], log_content = [], task_stop_calls = 0, close_threads = 0 \<rparr>"

section \<open>The log\<close>

text \<open>
  \<open>sep.join(xs)\<close> of Python: the strings of \<open>xs\<close> with \<open>sep\<close> between neighbours.
\<close>

fun join :: "string \<Rightarrow> string list \<Rightarrow> string" where
  "join sep [] = []"
| "join sep [x] = x"
| "join sep (x # y # ys) = x @ sep @ join sep (y # ys)"

definition newline :: string where
  "newline = [CHR 0x0A]"

text \<open>
  \<open>deque(maxlen=n).append(x)\<close>: a full deque drops its leftmost element before the new one
  is added on the right; a deque of capacity zero stays empty.
\<close>

definition deque_append :: "nat \<Rightarrow> 'a \<Rightarrow> 'a list \<Rightarrow> 'a list" where
  "deque_append maxlen x q =
     (if maxlen = 0 then q
      else if length q = maxlen then tl q @ [x]
      else q @ [x])"

text \<open>
  \<open>log\<close> appends to \<open>gui_log\<close>, a \<open>deque(maxlen=50)\<close>, and rebuilds \<open>log_content\<close>. The
  copy of \<open>log_content\<close> into the GUI widget is display only and has no part in the state.
\<close>

definition log :: "string \<Rightarrow> monitor \<Rightarrow> monitor" where
  "log message m =
     (let q = deque_append 50 message (gui_log m)
      in m\<lparr> gui_log := q, log_content := join newline q \<rparr>)"

section \<open>The order feed: \<open>fetch_orders\<close>\<close>

text \<open>
  The request \<open>fetch_orders\<close> hands to \<open>requests.get\<close>.
\<close>

record request =
  url :: string
  headers :: "(string \<times> string) list"
  params :: "(string \<times> int) list"
  timeout :: int

definition orders_request :: "monitor \<Rightarrow> request" where
  "orders_request m =
     \<lparr> url = ''https://payhip.com/api/v1/orders'',
       headers = [(''Authorization'', ''Bearer '' @ payhip_key m)],
       params = [(''limit'', 5)],
       timeout = 10 \<rparr>"

text \<open>
  What comes back. An order object of the API is a dictionary; of it the model keeps the
  five keys \<open>fetch_orders\<close> reads, each absent (\<open>None\<close>) or present with a value of the
  type \<open>PayhipOrder\<close> declares for it. An element of the \<open>data\<close> array that is no object
  (a string, a number, a list, \<open>null\<close>) cannot be subscripted with a string key: Python
  raises \<open>TypeError\<close>, and \<open>NonObject\<close> carries the text of that exception. Likewise a
  \<open>data\<close> value that cannot be iterated, and a JSON body that is no object and so has no
  method \<open>get\<close>. A \<open>data\<close> value that is a string or an object is iterated by Python into
  strings, which are \<open>NonObject\<close> elements here.
\<close>

record api_order =
  api_id :: "string option"
  api_status :: "string option"
  api_total :: "string option"
  api_customer_email :: "string option"
  api_items :: "item list option"

datatype element = Object api_order | NonObject string

datatype body =
    NoData
  | Data "element list"
  | DataNotIterable string
  | NotAnObject string

text \<open>
  The three calls into the \<open>requests\<close> library, \<open>requests.get\<close>,
  \<open>raise_for_status\<close> and \<open>response.json\<close>, either raise, with the text of the
  exception, or hand on; the last one yields the parsed body. \<open>ConnectionFailed\<close> is a
  transport error (no connection, the 10 second timeout), \<open>BadStatus\<close> a status code that
  \<open>raise_for_status\<close> rejects, \<open>BadJson\<close> a body that is not JSON.
\<close>

datatype response =
    ConnectionFailed string
  | BadStatus string
  | BadJson string
  | Json body

datatype exn =
    RequestException string
  | HTTPError string
  | JSONDecodeError string
  | AttributeError string
  | TypeError string
  | KeyError string

text \<open>\<open>str(e)\<close>: the message, and for a \<open>KeyError\<close> the key in quotes.\<close>

fun str_exn :: "exn \<Rightarrow> string" where
  "str_exn (RequestException s) = s"
| "str_exn (HTTPError s) = s"
| "str_exn (JSONDecodeError s) = s"
| "str_exn (AttributeError s) = s"
| "str_exn (TypeError s) = s"
| "str_exn (KeyError k) = [CHR 0x27] @ k @ [CHR 0x27]"

text \<open>
  One step of the list comprehension: \<open>PayhipOrder(id=order["id"], ...)\<close>. The keyword
  arguments are evaluated in the order written, so the first missing key is the one
  reported; \<open>order.get("items", [])\<close> has a default.
\<close>

fun make_order :: "element \<Rightarrow> exn + payhip_order" where
  "make_order (NonObject msg) = Inl (TypeError msg)"
| "make_order (Object r) =
     (case api_id r of
        None \<Rightarrow> Inl (KeyError ''id'')
      | Some i \<Rightarrow>
     (case api_status r of
        None \<Rightarrow> Inl (KeyError ''status'')
      | Some s \<Rightarrow>
     (case api_total r of
        None \<Rightarrow> Inl (KeyError ''total'')
      | Some t \<Rightarrow>
     (case api_customer_email r of
        None \<Rightarrow> Inl (KeyError ''customer_email'')
      | Some e \<Rightarrow>
          Inr \<lparr> order_id = i, status = s, order_total = t, customer_email = e,
                items = (case api_items r of None \<Rightarrow> [] | Some xs \<Rightarrow> xs) \<rparr>))))"

text \<open>The comprehension: the first element that raises ends it.\<close>

fun make_orders :: "element list \<Rightarrow> exn + payhip_order list" where
  "make_orders [] = Inr []"
| "make_orders (x # xs) =
     (case make_order x of
        Inl e \<Rightarrow> Inl e
      | Inr order \<Rightarrow>
          (case make_orders xs of
             Inl e \<Rightarrow> Inl e
           | Inr orders \<Rightarrow> Inr (order # orders)))"

text \<open>The body of the \<open>try\<close>.\<close>

fun fetch_try :: "response \<Rightarrow> exn + payhip_order list" where
  "fetch_try (ConnectionFailed msg) = Inl (RequestException msg)"
| "fetch_try (BadStatus msg) = Inl (HTTPError msg)"
| "fetch_try (BadJson msg) = Inl (JSONDecodeError msg)"
| "fetch_try (Json (NotAnObject msg)) = Inl (AttributeError msg)"
| "fetch_try (Json NoData) = Inr []"
| "fetch_try (Json (DataNotIterable msg)) = Inl (TypeError msg)"
| "fetch_try (Json (Data xs)) = make_orders xs"

text \<open>
  \<open>fetch_orders\<close>, with \<open>requests_get\<close> standing for the remote side: \<open>except Exception\<close>
  logs and returns the empty list.
\<close>

definition fetch_orders ::
  "(request \<Rightarrow> response) \<Rightarrow> monitor \<Rightarrow> payhip_order list \<times> monitor" where
  "fetch_orders requests_get m =
     (case fetch_try (requests_get (orders_request m)) of
        Inr orders \<Rightarrow> (orders, m)
      | Inl e \<Rightarrow> ([], log (''API Error: '' @ str_exn e) m))"

section \<open>The notification: \<open>send_notification\<close>\<close>

datatype colour = Green

record embed_field =
  field_name :: string
  field_value :: string
  inline :: bool

record embed =
  title :: string
  color :: colour
  description :: string
  embed_fields :: "embed_field list"

text \<open>\<open>item.get('product_name', 'Unknown')\<close>.\<close>

definition product_name :: "item \<Rightarrow> string" where
  "product_name item =
     (case map_of item ''product_name'' of None \<Rightarrow> ''Unknown'' | Some n \<Rightarrow> n)"

definition products_label :: string where
  "products_label =
     ''Products(this is what you'' @ [CHR 0x27] @ ''re customer is bought)''"

text \<open>
  The embed \<open>send_notification\<close> builds before it sends: \<open>add_field\<close> has \<open>inline=True\<close>
  unless told otherwise.
\<close>

definition order_embed :: "payhip_order \<Rightarrow> embed" where
  "order_embed order =
     \<lparr> title = ''Someone is buying you'' @ [CHR 0x27] @ ''re digital product!!!'',
       color = Green,
       description = ''**Order ID:** '' @ [CHR 0x60] @ order_id order @ [CHR 0x60],
       embed_fields =
         [\<lparr> field_name = ''Total: '', field_value = ''$'' @ order_total order,
            inline = True \<rparr>,
          \<lparr> field_name = ''Customer(EMAIL): '', field_value = customer_email order,
            inline = True \<rparr>]
         @ (if items order \<noteq> []
            then [\<lparr> field_name = products_label,
                    field_value =
                      join newline (map (\<lambda>item. ''- '' @ product_name item) (items order)),
                    inline = False \<rparr>]
            else []) \<rparr>"

text \<open>
  A channel is what \<open>channel.send\<close> does with an embed: \<open>None\<close> when the call returns,
  \<open>Some msg\<close> when it raises an exception with text \<open>msg\<close>.
\<close>

type_synonym channel = "embed \<Rightarrow> string option"

definition send_notification :: "channel \<Rightarrow> payhip_order \<Rightarrow> string option" where
  "send_notification channel order = channel (order_embed order)"

section \<open>The fetch cycle: \<open>check_orders\<close>\<close>

text \<open>
  A run of \<open>check_orders\<close> either returns or is left by the exception of a failed send,
  which nothing in \<open>check_orders\<close> catches. Beside the new state the model returns the
  calls of \<open>send_notification\<close> the cycle made, each with whether it returned.
\<close>

datatype outcome = Returned | Raised string

type_synonym notify_call = "payhip_order \<times> bool"

text \<open>
  What follows a send that returned: \<open>self.processed_orders.add(order.id)\<close> and the line
  \<open>New Order: ...\<close> in the log.
\<close>

definition mark_processed :: "payhip_order \<Rightarrow> monitor \<Rightarrow> monitor" where
  "mark_processed order m =
     log (''New Order: '' @ order_id order)
       (m\<lparr> processed_orders := insert (order_id order) (processed_orders m) \<rparr>)"

text \<open>
  The \<open>for\<close> loop over the fetched orders. A send that raises ends the loop and the
  cycle with it: the orders after it are not looked at.
\<close>

fun process_orders ::
  "channel \<Rightarrow> payhip_order list \<Rightarrow> monitor \<Rightarrow> monitor \<times> notify_call list \<times> outcome" where
  "process_orders channel [] m = (m, [], Returned)"
| "process_orders channel (order # rest) m =
     (if status order = ''completed'' \<and> order_id order \<notin> processed_orders m
      then (case send_notification channel order of
              Some msg \<Rightarrow> (m, [(order, False)], Raised msg)
            | None \<Rightarrow>
                (let (m', calls, out) = process_orders channel rest (mark_processed order m)
                 in (m', (order, True) # calls, out)))
      else process_orders channel rest m)"

text \<open>
  What one tick meets outside the program: the answer of the orders API to a request and
  the result of \<open>bot.get_channel\<close> (\<open>None\<close> when the channel is not found).
\<close>

record tick =
  requests_get :: "request \<Rightarrow> response"
  get_channel :: "int \<Rightarrow> channel option"

definition check_orders :: "tick \<Rightarrow> monitor \<Rightarrow> monitor \<times> notify_call list \<times> outcome" where
  "check_orders t m =
     (let (orders, m1) = fetch_orders (requests_get t) m
      in case get_channel t (channel_id m1) of
           None \<Rightarrow> (m1, [], Returned)
         | Some channel \<Rightarrow> process_orders channel orders m1)"

text \<open>
  The task loop calls \<open>check_orders\<close> once per tick. A run is the sequence of these
  calls; a loop that the library ends after an exception is a run over fewer ticks.
\<close>

fun run :: "tick list \<Rightarrow> monitor \<Rightarrow> monitor \<times> notify_call list" where
  "run [] m = (m, [])"
| "run (t # ts) m =
     (let (m1, calls1, out) = check_orders t m;
          (m2, calls2) = run ts m1
      in (m2, calls1 @ calls2))"

section \<open>Start and stop\<close>

text \<open>
  \<open>run_bot\<close>: \<open>bot.run\<close> either returns (\<open>None\<close>) or raises with a text.
\<close>

definition run_bot :: "string option \<Rightarrow> monitor \<Rightarrow> monitor" where
  "run_bot bot_run m =
     (let m1 = m\<lparr> bot_running := True \<rparr>;
          m2 = log ''Starting Discord bot...'' m1
      in case bot_run of
           None \<Rightarrow> m2
         | Some msg \<Rightarrow> (log (''Bot error: '' @ msg) m2)\<lparr> bot_running := False \<rparr>)"

text \<open>
  \<open>stop_bot\<close>, with \<open>is_closed\<close> the answer of \<open>bot.is_closed()\<close>. The attribute
  \<open>check_orders\<close> is set by \<open>__init__\<close>, so \<open>hasattr\<close> holds.
\<close>

definition stop_bot :: "bool \<Rightarrow> monitor \<Rightarrow> monitor" where
  "stop_bot is_closed m =
     (if \<not> bot_running m then m
      else
        (let m1 = log ''Stopping bot...'' m;
             m2 = m1\<lparr> bot_running := False \<rparr>;
             m3 = m2\<lparr> task_stop_calls := Suc (task_stop_calls m2) \<rparr>;
             m4 = (if \<not> is_closed then m3\<lparr> close_threads := Suc (close_threads m3) \<rparr>
                   else m3)
         in log ''Bot stopped successfully'' m4))"

section \<open>Notions the properties are stated with\<close>

text \<open>The calls of \<open>send_notification\<close> made for the order id \<open>i\<close>, in order.\<close>

definition calls_for :: "string \<Rightarrow> notify_call list \<Rightarrow> notify_call list" where
  "calls_for i calls = filter (\<lambda>c. order_id (fst c) = i) calls"

text \<open>
  The lines of a text, as \<open>text.split("\n")\<close> gives them: what a reader of the message
  sees as one entry per line.
\<close>

fun split_lines :: "string \<Rightarrow> string list" where
  "split_lines [] = [[]]"
| "split_lines (c # cs) =
     (if c = CHR 0x0A then [] # split_lines cs
      else (case split_lines cs of
              [] \<Rightarrow> [[c]]
            | l # ls \<Rightarrow> (c # l) # ls))"

text \<open>
  A malformed element of the \<open>data\<close> array: no object at all, or an object without one
  of the four keys \<open>fetch_orders\<close> subscripts. A failed fetch: a transport error, a
  rejected status, a body that is not JSON or not of the expected shape, or a page with a
  malformed element. Both are shown below to be exactly the inputs on which the body of the
  \<open>try\<close> raises.
\<close>

fun malformed :: "element \<Rightarrow> bool" where
  "malformed (NonObject msg) = True"
| "malformed (Object r) =
     (api_id r = None \<or> api_status r = None \<or> api_total r = None
      \<or> api_customer_email r = None)"


section \<open>A worked scenario\<close>

text \<open>
  The order of the scenario: id \<open>A\<close>, completed, total \<open>9.99\<close>, one item \<open>Widget\<close>; the
  same order still pending under id \<open>B\<close>; a monitor as \<open>__init__\<close> leaves it.
\<close>

definition example_record :: api_order where
  "example_record =
     \<lparr> api_id = Some ''A'', api_status = Some ''completed'', api_total = Some ''9.99'',
       api_customer_email = Some ''x@y.com'',
       api_items = Some [[(''product_name'', ''Widget'')]] \<rparr>"

definition example_order :: payhip_order where
  "example_order =
     \<lparr> order_id = ''A'', status = ''completed'', order_total = ''9.99'',
       customer_email = ''x@y.com'', items = [[(''product_name'', ''Widget'')]] \<rparr>"

definition pending_record :: api_order where
  "pending_record = example_record\<lparr> api_id := Some ''B'', api_status := Some ''pending'' \<rparr>"

definition pending_order :: payhip_order where
  "pending_order = example_order\<lparr> order_id := ''B'', status := ''pending'' \<rparr>"

definition two_item_order :: payhip_order where
  "two_item_order = example_order\<lparr> items := [[(''product_name'', ''Widget'')], []] \<rparr>"

definition six_records :: "element list" where
  "six_records =
     map (\<lambda>i. Object (example_record\<lparr> api_id := Some i \<rparr>))
       [''A'', ''B'', ''C'', ''D'', ''E'', ''F'']"

definition example_monitor :: monitor where
  "example_monitor = init_monitor ''key'' ''token'' 1 60"

definition accepting_channel :: channel where
  "accepting_channel = (\<lambda>e. None)"

definition failing_channel :: channel where
  "failing_channel = (\<lambda>e. Some ''send failed'')"

text \<open>
  A second completed order, id \<open>C\<close>, and a channel that rejects the message of order
  \<open>A\<close> and takes every other.
\<close>

definition second_record :: api_order where
  "second_record = example_record\<lparr> api_id := Some ''C'' \<rparr>"

definition second_order :: payhip_order where
  "second_order = example_order\<lparr> order_id := ''C'' \<rparr>"

definition rejecting_first :: channel where
  "rejecting_first =
     (\<lambda>e. if e = order_embed example_order then Some ''send failed'' else None)"

definition example_tick :: "element list \<Rightarrow> channel option \<Rightarrow> tick" where
  "example_tick xs ch =
     \<lparr> requests_get = (\<lambda>r. Json (Data xs)), get_channel = (\<lambda>i. ch) \<rparr>"

section \<open>The bounded log\<close>

lemma gui_log_log: "gui_log (log x m) = deque_append 50 x (gui_log m)"
  by (simp add: log_def Let_def)

lemma processed_orders_log [simp]: "processed_orders (log x m) = processed_orders m"
  by (simp add: log_def Let_def)

lemma channel_id_log [simp]: "channel_id (log x m) = channel_id m"
  by (simp add: log_def Let_def)

lemma deque_append_last:
  "length q \<le> n \<Longrightarrow> 0 < n \<Longrightarrow>
   deque_append n x q = drop (length (q @ [x]) - n) (q @ [x])"
  by (cases q) (auto simp: deque_append_def)

lemma drop_window:
  "drop (length (drop (length ys - n) ys @ zs) - n) (drop (length ys - n) ys @ zs)
   = drop (length (ys @ zs) - n) (ys @ zs)"
proof (cases "length ys \<le> n")
  case True
  then show ?thesis by simp
next
  case False
  define k where "k = length ys - n"
  have k: "length ys = k + n" using False by (simp add: k_def)
  have kz: "length (ys @ zs) - n = length zs + k"
    by (simp add: k)
  have dk: "drop k (ys @ zs) = drop k ys @ zs"
    by (simp add: k)
  have lhs: "length (drop k ys @ zs) - n = length zs"
    by (simp add: k)
  have "drop (length zs + k) (ys @ zs) = drop (length zs) (drop k (ys @ zs))"
    by (simp only: drop_drop)
  then show ?thesis
    unfolding k_def [symmetric] kz lhs dk by simp
qed

lemma fold_log_gui_log:
  "length (gui_log m) \<le> 50 \<Longrightarrow>
   gui_log (fold log msgs m) =
     drop (length (gui_log m @ msgs) - 50) (gui_log m @ msgs)"
proof (induction msgs arbitrary: m)
  case Nil
  then show ?case by simp
next
  case (Cons x msgs)
  let ?q = "gui_log m @ [x]"
  have step: "gui_log (log x m) = drop (length ?q - 50) ?q"
    using Cons.prems by (simp only: gui_log_log deque_append_last)
  then have len: "length (gui_log (log x m)) \<le> 50"
    by simp
  have "gui_log (fold log (x # msgs) m) = gui_log (fold log msgs (log x m))"
    by simp
  also have "\<dots> = drop (length (gui_log (log x m) @ msgs) - 50) (gui_log (log x m) @ msgs)"
    using Cons.IH [OF len] .
  also have "\<dots> = drop (length (?q @ msgs) - 50) (?q @ msgs)"
    unfolding step by (rule drop_window)
  finally show ?case by simp
qed

text \<open>
  Claim C7. Whatever the log held before (at most 50 lines, as a \<open>deque(maxlen=50)\<close>
  always does), after more than 50 calls of \<open>log\<close> the deque holds exactly the last 50
  messages of those calls, the oldest first and the newest last.
\<close>

theorem log_keeps_last_50:
  assumes "length (gui_log m) \<le> 50" and "50 < length msgs"
  shows "gui_log (fold log msgs m) = drop (length msgs - 50) msgs
         \<and> length (gui_log (fold log msgs m)) = 50"
proof -
  have "gui_log (fold log msgs m) =
          drop (length (gui_log m @ msgs) - 50) (gui_log m @ msgs)"
    using assms(1) by (rule fold_log_gui_log)
  also have "\<dots> = drop (length msgs - 50) msgs"
    using assms(2) by simp
  finally show ?thesis using assms(2) by simp
qed

text \<open>
  Fifty-one lines into the empty log of a fresh monitor: the first one is gone, the fifty
  later ones remain.
\<close>

theorem log_keeps_last_50_witness:
  "length (gui_log example_monitor) \<le> 50
   \<and> 50 < length (''first'' # replicate 50 ''later'')
   \<and> gui_log (fold log (''first'' # replicate 50 ''later'') example_monitor)
       = replicate 50 ''later''"
proof -
  have h1: "length (gui_log example_monitor) \<le> 50"
    by (simp add: example_monitor_def init_monitor_def)
  have h2: "50 < length (''first'' # replicate 50 ''later'')"
    by simp
  show ?thesis
    using h1 h2 log_keeps_last_50 [OF h1 h2] by simp
qed

section \<open>The order feed\<close>

lemma malformed_iff: "malformed x \<longleftrightarrow> (\<exists>e. make_order x = Inl e)"
  by (cases x) (auto split: option.splits)

lemma make_orders_Inl_iff: "(\<exists>e. make_orders xs = Inl e) \<longleftrightarrow> (\<exists>x\<in>set xs. malformed x)"
proof (induction xs)
  case Nil
  then show ?case by simp
next
  case (Cons x xs)
  show ?case
  proof (cases "make_order x")
    case (Inl e)
    then have "malformed x" by (auto simp: malformed_iff)
    then show ?thesis using Inl by simp
  next
    case (Inr order)
    then have "\<not> malformed x" by (simp add: malformed_iff)
    then show ?thesis using Inr Cons.IH by (auto split: sum.splits)
  qed
qed


lemma make_orders_map:
  "make_orders xs = Inr orders \<Longrightarrow> map make_order xs = map Inr orders"
  by (induction xs arbitrary: orders) (auto split: sum.splits)

lemma fetch_orders_failed:
  "fetch_try (api (orders_request m)) = Inl e \<Longrightarrow>
   fetch_orders api m = ([], log (''API Error: '' @ str_exn e) m)"
  by (simp add: fetch_orders_def)

lemma fetch_orders_ok:
  "fetch_try (api (orders_request m)) = Inr orders \<Longrightarrow> fetch_orders api m = (orders, m)"
  by (simp add: fetch_orders_def)

lemma fetch_orders_processed [simp]:
  "processed_orders (snd (fetch_orders api m)) = processed_orders m"
  by (simp add: fetch_orders_def split: sum.splits)

lemma fetch_orders_channel_id [simp]:
  "channel_id (snd (fetch_orders api m)) = channel_id m"
  by (simp add: fetch_orders_def split: sum.splits)

lemma example_make_order: "make_order (Object example_record) = Inr example_order"
  by (simp add: example_record_def example_order_def)

lemma make_pending_order: "make_order (Object pending_record) = Inr pending_order"
  by (simp add: pending_record_def pending_order_def example_record_def example_order_def)

lemma fetch_example_tick:
  "make_orders xs = Inr orders \<Longrightarrow>
   fetch_orders (requests_get (example_tick xs ch)) m = (orders, m)"
  by (simp add: fetch_orders_def example_tick_def)

text \<open>
  Claim C5, as the code has it. On success \<open>fetch_orders\<close> returns one order per record
  of the \<open>data\<close> array of the response, in the order of the array, so the result is
  exactly as long as the array: it has at most 5 orders whenever the API sends at most the
  5 records it was asked for, and nothing in \<open>fetch_orders\<close> cuts a longer answer. The
  request carries the parameter \<open>limit=5\<close> and a timeout of 10 seconds.
\<close>

theorem fetch_orders_as_given:
  assumes "api (orders_request m) = Json (Data xs)"
      and "make_orders xs = Inr orders"
  shows "fetch_orders api m = (orders, m)
         \<and> map make_order xs = map Inr orders
         \<and> length orders = length xs
         \<and> params (orders_request m) = [(''limit'', 5)]
         \<and> timeout (orders_request m) = 10"
proof -
  have "fetch_orders api m = (orders, m)"
    using assms by (simp add: fetch_orders_ok)
  moreover have m: "map make_order xs = map Inr orders"
    using assms(2) by (rule make_orders_map)
  moreover have "length orders = length xs"
    using arg_cong [OF m, of length] by simp
  ultimately show ?thesis
    by (simp add: orders_request_def)
qed

theorem fetch_orders_as_given_witness:
  "make_orders [Object example_record, Object pending_record] = Inr [example_order, pending_order]
   \<and> fetch_orders (\<lambda>r. Json (Data [Object example_record, Object pending_record])) example_monitor
       = ([example_order, pending_order], example_monitor)"
proof -
  let ?xs = "[Object example_record, Object pending_record]"
  let ?api = "\<lambda>r::request. Json (Data ?xs)"
  have h1: "?api (orders_request example_monitor) = Json (Data ?xs)"
    by simp
  have h2: "make_orders ?xs = Inr [example_order, pending_order]"
    by (simp add: make_pending_order example_make_order del: make_order.simps)
  show ?thesis
    using h2 fetch_orders_as_given [OF h1 h2] by simp
qed

text \<open>
  The claim as written bounds the result by 5. An answer of six well-formed records is
  returned whole.
\<close>

theorem fetch_orders_length_counterexample:
  "\<not> length (fst (fetch_orders (\<lambda>r. Json (Data six_records)) example_monitor)) \<le> 5"
proof -
  have "\<not> (\<exists>x\<in>set six_records. malformed x)"
    by (simp add: six_records_def example_record_def)
  then obtain orders where o: "make_orders six_records = Inr orders"
    using make_orders_Inl_iff [of six_records] by (cases "make_orders six_records") auto
  have "length orders = length six_records"
    using arg_cong [OF make_orders_map [OF o], of length] by simp
  then have "length orders = 6"
    by (simp add: six_records_def)
  moreover have "fetch_orders (\<lambda>r. Json (Data six_records)) example_monitor
                   = (orders, example_monitor)"
    using o by (simp add: fetch_orders_ok)
  ultimately show ?thesis by simp
qed



text \<open>
  Claim C10. One malformed record in the \<open>data\<close> array, for instance one without
  \<open>id\<close>, \<open>status\<close>, \<open>total\<close> or \<open>customer_email\<close>, and \<open>fetch_orders\<close> returns the empty
  list: the well-formed orders of the same page are dropped with it. The list returned is
  the one returned after a transport error and the one returned for an empty page.
\<close>

theorem malformed_record_drops_page:
  assumes "api (orders_request m) = Json (Data xs)"
      and "x \<in> set xs" and "malformed x"
  shows "fst (fetch_orders api m) = []
         \<and> fst (fetch_orders api m) = fst (fetch_orders (\<lambda>r. ConnectionFailed msg) m)
         \<and> fst (fetch_orders api m) = fst (fetch_orders (\<lambda>r. Json (Data [])) m)"
proof -
  have "\<exists>e. make_orders xs = Inl e"
    using assms(2,3) make_orders_Inl_iff by blast
  then obtain e where "fetch_try (api (orders_request m)) = Inl e"
    using assms(1) by auto
  then have "fst (fetch_orders api m) = []"
    by (simp add: fetch_orders_failed)
  then show ?thesis
    by (simp add: fetch_orders_def)
qed

theorem malformed_record_drops_page_witness:
  "Object (example_record\<lparr> api_total := None \<rparr>)
     \<in> set [Object example_record, Object (example_record\<lparr> api_total := None \<rparr>)]
   \<and> malformed (Object (example_record\<lparr> api_total := None \<rparr>))
   \<and> \<not> malformed (Object example_record)
   \<and> fst (fetch_orders
        (\<lambda>r. Json (Data [Object example_record, Object (example_record\<lparr> api_total := None \<rparr>)]))
        example_monitor) = []"
proof -
  let ?bad = "Object (example_record\<lparr> api_total := None \<rparr>)"
  let ?api = "\<lambda>r::request. Json (Data [Object example_record, ?bad])"
  have h1: "?api (orders_request example_monitor) = Json (Data [Object example_record, ?bad])"
    by simp
  have h2: "?bad \<in> set [Object example_record, ?bad]"
    by simp
  have h3: "malformed ?bad"
    by simp
  have "\<not> malformed (Object example_record)"
    by (simp add: example_record_def)
  then show ?thesis
    using h2 h3 malformed_record_drops_page [OF h1 h2 h3] by simp
qed

section \<open>The notification\<close>

lemma split_lines_line:
  "CHR 0x0A \<notin> set x \<Longrightarrow> split_lines (x @ CHR 0x0A # rest) = x # split_lines rest"
  by (induction x) auto

lemma split_lines_single: "CHR 0x0A \<notin> set x \<Longrightarrow> split_lines x = [x]"
  by (induction x) auto

lemma split_lines_join:
  "xs \<noteq> [] \<Longrightarrow> \<forall>x\<in>set xs. CHR 0x0A \<notin> set x \<Longrightarrow>
   split_lines (join newline xs) = xs"
proof (induction newline xs rule: join.induct)
  case 1
  then show ?case by simp
next
  case (2 x)
  then show ?case by (simp add: split_lines_single)
next
  case (3 x y ys)
  then show ?case by (simp add: newline_def split_lines_line)
qed

lemma order_embed_fields:
  "embed_fields (order_embed order) =
     [\<lparr> field_name = ''Total: '', field_value = ''$'' @ order_total order, inline = True \<rparr>,
      \<lparr> field_name = ''Customer(EMAIL): '', field_value = customer_email order,
        inline = True \<rparr>]
     @ (if items order \<noteq> []
        then [\<lparr> field_name = products_label,
                field_value =
                  join newline (map (\<lambda>item. ''- '' @ product_name item) (items order)),
                inline = False \<rparr>]
        else [])"
  by (simp add: order_embed_def)

text \<open>
  Claim C6. The message \<open>send_notification\<close> hands to \<open>channel.send\<close> has the title, a
  field \<open>Total\<close> whose value is \<open>$\<close> followed by the total as it came, a field with the
  customer's email, and a field of products exactly when the order has items; its value
  is the entries \<open>- name\<close> of the items, in the order of the items, joined by newlines,
  with \<open>Unknown\<close> for an item without \<open>product_name\<close>. Read line by line the value gives
  back one entry per item, as long as no product name has a newline of its own.
\<close>

theorem notification_format:
  "send_notification channel order = channel (order_embed order)
   \<and> title (order_embed order) = ''Someone is buying you'' @ [CHR 0x27] @ ''re digital product!!!''
   \<and> \<lparr> field_name = ''Total: '', field_value = ''$'' @ order_total order, inline = True \<rparr>
         \<in> set (embed_fields (order_embed order))
   \<and> \<lparr> field_name = ''Customer(EMAIL): '', field_value = customer_email order, inline = True \<rparr>
         \<in> set (embed_fields (order_embed order))
   \<and> ((\<exists>f\<in>set (embed_fields (order_embed order)). field_name f = products_label)
        \<longleftrightarrow> items order \<noteq> [])
   \<and> (\<forall>f\<in>set (embed_fields (order_embed order)). field_name f = products_label \<longrightarrow>
          field_value f = join newline (map (\<lambda>item. ''- '' @ product_name item) (items order))
          \<and> ((\<forall>item\<in>set (items order). CHR 0x0A \<notin> set (product_name item)) \<longrightarrow>
               split_lines (field_value f)
                 = map (\<lambda>item. ''- '' @ product_name item) (items order)))
   \<and> (\<forall>item\<in>set (items order).
          product_name item =
            (case map_of item ''product_name'' of None \<Rightarrow> ''Unknown'' | Some n \<Rightarrow> n))"
proof -
  let ?entries = "map (\<lambda>item. ''- '' @ product_name item) (items order)"
  have lines: "split_lines (join newline ?entries) = ?entries"
    if "items order \<noteq> []" and "\<forall>item\<in>set (items order). CHR 0x0A \<notin> set (product_name item)"
  proof (rule split_lines_join)
    show "?entries \<noteq> []" using that(1) by simp
    show "\<forall>x\<in>set ?entries. CHR 0x0A \<notin> set x" using that(2) by auto
  qed
  have products: "field_value f = join newline ?entries
                  \<and> ((\<forall>item\<in>set (items order). CHR 0x0A \<notin> set (product_name item)) \<longrightarrow>
                       split_lines (field_value f) = ?entries)"
    if "f \<in> set (embed_fields (order_embed order))" and "field_name f = products_label" for f
  proof -
    have "items order \<noteq> [] \<and> field_value f = join newline ?entries"
      using that by (auto simp: order_embed_fields products_label_def split: if_splits)
    then show ?thesis using lines by simp
  qed
  have present: "(\<exists>f\<in>set (embed_fields (order_embed order)). field_name f = products_label)
                 \<longleftrightarrow> items order \<noteq> []"
    by (simp add: order_embed_fields products_label_def)
  have "send_notification channel order = channel (order_embed order)"
    by (simp add: send_notification_def)
  moreover have "title (order_embed order)
                   = ''Someone is buying you'' @ [CHR 0x27] @ ''re digital product!!!''"
    by (simp add: order_embed_def)
  moreover have "\<lparr> field_name = ''Total: '', field_value = ''$'' @ order_total order,
                    inline = True \<rparr> \<in> set (embed_fields (order_embed order))"
    by (simp add: order_embed_fields)
  moreover have "\<lparr> field_name = ''Customer(EMAIL): '', field_value = customer_email order,
                    inline = True \<rparr> \<in> set (embed_fields (order_embed order))"
    by (simp add: order_embed_fields)
  moreover have "\<forall>item\<in>set (items order).
          product_name item =
            (case map_of item ''product_name'' of None \<Rightarrow> ''Unknown'' | Some n \<Rightarrow> n)"
    by (simp add: product_name_def)
  ultimately show ?thesis
    using present products by blast
qed

text \<open>
  The order of the scenario with a second, nameless item: \<open>$9.99\<close>, the email, and the
  two lines \<open>- Widget\<close> and \<open>- Unknown\<close>.
\<close>

theorem notification_format_witness:
  "embed_fields (order_embed two_item_order) =
     [\<lparr> field_name = ''Total: '', field_value = ''$9.99'', inline = True \<rparr>,
      \<lparr> field_name = ''Customer(EMAIL): '', field_value = ''x@y.com'', inline = True \<rparr>,
      \<lparr> field_name = products_label,
        field_value = ''- Widget'' @ [CHR 0x0A] @ ''- Unknown'', inline = False \<rparr>]
   \<and> split_lines (''- Widget'' @ [CHR 0x0A] @ ''- Unknown'') = [''- Widget'', ''- Unknown'']"
  using notification_format [of accepting_channel two_item_order]
  by (simp add: order_embed_def two_item_order_def example_order_def product_name_def
        newline_def)

section \<open>The loop over the fetched orders\<close>

lemma processed_orders_mark [simp]:
  "processed_orders (mark_processed order m) = insert (order_id order) (processed_orders m)"
  by (simp add: mark_processed_def)

lemma process_orders_skip:
  "\<not> (status order = ''completed'' \<and> order_id order \<notin> processed_orders m) \<Longrightarrow>
   process_orders ch (order # rest) m = process_orders ch rest m"
  by auto

lemma process_orders_fail:
  "status order = ''completed'' \<Longrightarrow> order_id order \<notin> processed_orders m \<Longrightarrow>
   send_notification ch order = Some msg \<Longrightarrow>
   process_orders ch (order # rest) m = (m, [(order, False)], Raised msg)"
  by simp

lemma process_orders_sent:
  "status order = ''completed'' \<Longrightarrow> order_id order \<notin> processed_orders m \<Longrightarrow>
   send_notification ch order = None \<Longrightarrow>
   process_orders ch rest (mark_processed order m) = (m', calls, out) \<Longrightarrow>
   process_orders ch (order # rest) m = (m', (order, True) # calls, out)"
  by simp

text \<open>
  The three ways one turn of the loop can go, as a case rule for the proofs below: the
  order is passed over, its send raises, or its send returns and the loop goes on.
\<close>

lemma process_orders_Cons_cases:
  assumes "process_orders ch (order # rest) m = (m', calls, out)"
  obtains (skip) "\<not> (status order = ''completed'' \<and> order_id order \<notin> processed_orders m)"
      "process_orders ch rest m = (m', calls, out)"
  | (fail) msg where "status order = ''completed''" "order_id order \<notin> processed_orders m"
      "send_notification ch order = Some msg"
      "m' = m" "calls = [(order, False)]" "out = Raised msg"
  | (sent) calls' where "status order = ''completed''" "order_id order \<notin> processed_orders m"
      "send_notification ch order = None"
      "process_orders ch rest (mark_processed order m) = (m', calls', out)"
      "calls = (order, True) # calls'"
proof (cases "status order = ''completed'' \<and> order_id order \<notin> processed_orders m")
  case False
  then show ?thesis
    using assms process_orders_skip [OF False] skip by simp
next
  case True
  then have st: "status order = ''completed''" and new: "order_id order \<notin> processed_orders m"
    by simp_all
  show ?thesis
  proof (cases "send_notification ch order")
    case (Some msg)
    then show ?thesis
      using assms process_orders_fail [OF st new Some] fail [OF st new Some] by simp
  next
    case None
    obtain m3 calls3 out3 where
      rec: "process_orders ch rest (mark_processed order m) = (m3, calls3, out3)"
      by (cases "process_orders ch rest (mark_processed order m)") auto
    have "m' = m3 \<and> calls = (order, True) # calls3 \<and> out = out3"
      using assms process_orders_sent [OF st new None rec] by simp
    then show ?thesis
      using sent [OF st new None, of calls3] rec by simp
  qed
qed

lemma process_orders_mono:
  "process_orders ch os m = (m', calls, out) \<Longrightarrow> processed_orders m \<subseteq> processed_orders m'"
proof (induction os arbitrary: m m' calls out)
  case Nil
  then show ?case by simp
next
  case (Cons order rest)
  from Cons.prems show ?case
  proof (cases rule: process_orders_Cons_cases)
    case skip
    then show ?thesis using Cons.IH by blast
  next
    case (fail msg)
    then show ?thesis by simp
  next
    case (sent calls')
    then show ?thesis using Cons.IH [OF sent(4)] by simp
  qed
qed

lemma process_orders_calls:
  "process_orders ch os m = (m', calls, out) \<Longrightarrow> c \<in> set calls \<Longrightarrow>
   fst c \<in> set os \<and> status (fst c) = ''completed'' \<and> order_id (fst c) \<notin> processed_orders m"
proof (induction os arbitrary: m m' calls out)
  case Nil
  then show ?case by simp
next
  case (Cons order rest)
  from Cons.prems(1) show ?case
  proof (cases rule: process_orders_Cons_cases)
    case skip
    then show ?thesis using Cons.IH [OF skip(2)] Cons.prems(2) by simp
  next
    case (fail msg)
    then show ?thesis using Cons.prems(2) by simp
  next
    case (sent calls')
    show ?thesis
    proof (cases "c = (order, True)")
      case True
      then show ?thesis using sent by simp
    next
      case False
      then have "c \<in> set calls'" using Cons.prems(2) sent(5) by simp
      then show ?thesis using Cons.IH [OF sent(4)] by simp
    qed
  qed
qed

text \<open>The state a cycle ends in is made by the sends that returned, and by them alone.\<close>

lemma process_orders_state:
  "process_orders ch os m = (m', calls, out) \<Longrightarrow>
   m' = fold mark_processed (map fst (filter snd calls)) m"
proof (induction os arbitrary: m m' calls out)
  case Nil
  then show ?case by simp
next
  case (Cons order rest)
  from Cons.prems show ?case
  proof (cases rule: process_orders_Cons_cases)
    case skip
    then show ?thesis using Cons.IH by blast
  next
    case (fail msg)
    then show ?thesis by simp
  next
    case (sent calls')
    then show ?thesis using Cons.IH [OF sent(4)] by simp
  qed
qed

lemma process_orders_added:
  "process_orders ch os m = (m', calls, out) \<Longrightarrow>
   processed_orders m' = processed_orders m \<union> {order_id (fst c) | c. c \<in> set calls \<and> snd c}"
proof (induction os arbitrary: m m' calls out)
  case Nil
  then show ?case by simp
next
  case (Cons order rest)
  from Cons.prems show ?case
  proof (cases rule: process_orders_Cons_cases)
    case skip
    then show ?thesis using Cons.IH by blast
  next
    case (fail msg)
    then show ?thesis by simp
  next
    case (sent calls')
    have "processed_orders m' =
            insert (order_id order) (processed_orders m)
            \<union> {order_id (fst c) | c. c \<in> set calls' \<and> snd c}"
      using Cons.IH [OF sent(4)] by simp
    also have "\<dots> = processed_orders m \<union> {order_id (fst c) | c. c \<in> set calls \<and> snd c}"
      unfolding sent(5) by auto
    finally show ?thesis .
  qed
qed

lemma process_orders_once:
  "process_orders ch os m = (m', calls, out) \<Longrightarrow>
   calls_for i calls = c # later \<Longrightarrow> snd c \<Longrightarrow> later = []"
proof (induction os arbitrary: m m' calls out)
  case Nil
  then show ?case by (simp add: calls_for_def)
next
  case (Cons order rest)
  from Cons.prems(1) show ?case
  proof (cases rule: process_orders_Cons_cases)
    case skip
    then show ?thesis using Cons.IH Cons.prems(2,3) by blast
  next
    case (fail msg)
    then show ?thesis using Cons.prems(2,3)
      by (auto simp: calls_for_def split: if_splits)
  next
    case (sent calls')
    show ?thesis
    proof (cases "order_id order = i")
      case False
      then have "calls_for i calls' = c # later"
        using Cons.prems(2) sent(5) by (simp add: calls_for_def)
      then show ?thesis using Cons.IH [OF sent(4)] Cons.prems(3) by blast
    next
      case True
      have "i \<in> processed_orders (mark_processed order m)"
        using True by simp
      then have "calls_for i calls' = []"
        using process_orders_calls [OF sent(4)]
        by (auto simp: calls_for_def filter_empty_conv)
      then show ?thesis
        using Cons.prems(2) sent(5) True by (simp add: calls_for_def)
    qed
  qed
qed

lemma failed_notify_not_marked:
  "process_orders ch os m = (m', calls, out) \<Longrightarrow> (x, False) \<in> set calls \<Longrightarrow>
   order_id x \<notin> processed_orders m' \<and> (\<exists>msg. out = Raised msg)"
proof (induction os arbitrary: m m' calls out)
  case Nil
  then show ?case by simp
next
  case (Cons order rest)
  from Cons.prems(1) show ?case
  proof (cases rule: process_orders_Cons_cases)
    case skip
    then show ?thesis using Cons.IH Cons.prems(2) by blast
  next
    case (fail msg)
    then show ?thesis using Cons.prems(2) by auto
  next
    case (sent calls')
    then show ?thesis using Cons.IH [OF sent(4)] Cons.prems(2) by auto
  qed
qed

lemma eligible_order_is_attempted:
  "process_orders ch os m = (m', calls, out) \<Longrightarrow> x \<in> set os \<Longrightarrow>
   status x = ''completed'' \<Longrightarrow> order_id x \<notin> processed_orders m \<Longrightarrow>
   (\<exists>c\<in>set calls. order_id (fst c) = order_id x) \<or> (\<exists>msg. out = Raised msg)"
proof (induction os arbitrary: m m' calls out)
  case Nil
  then show ?case by simp
next
  case (Cons order rest)
  from Cons.prems(1) show ?case
  proof (cases rule: process_orders_Cons_cases)
    case skip
    have "x \<in> set rest" using skip(1) Cons.prems(2,3,4) by auto
    then show ?thesis using Cons.IH [OF skip(2) _ Cons.prems(3,4)] by blast
  next
    case (fail msg)
    then show ?thesis by simp
  next
    case (sent calls')
    show ?thesis
    proof (cases "order_id order = order_id x")
      case True
      then show ?thesis using sent(5) by simp
    next
      case False
      then have "x \<in> set rest" and "order_id x \<notin> processed_orders (mark_processed order m)"
        using Cons.prems(2,4) by auto
      then show ?thesis
        using Cons.IH [OF sent(4) _ Cons.prems(3)] sent(5) by auto
    qed
  qed
qed

text \<open>
  A send that raises is the last thing the loop does: every call before it returned, and
  the orders after it in the page have no part in the result.
\<close>

lemma failed_send_ends_loop:
  "process_orders ch os m = (m', calls, out) \<Longrightarrow> (x, False) \<in> set calls \<Longrightarrow>
   last calls = (x, False) \<and> (\<forall>c\<in>set (butlast calls). snd c)
   \<and> (\<exists>before after. os = before @ x # after
         \<and> (\<forall>after'. process_orders ch (before @ x # after') m = (m', calls, out)))"
proof (induction os arbitrary: m m' calls out)
  case Nil
  then show ?case by simp
next
  case (Cons order rest)
  from Cons.prems(1) show ?case
  proof (cases rule: process_orders_Cons_cases)
    case skip
    have ih: "last calls = (x, False) \<and> (\<forall>c\<in>set (butlast calls). snd c)
       \<and> (\<exists>before after. rest = before @ x # after
             \<and> (\<forall>after'. process_orders ch (before @ x # after') m = (m', calls, out)))"
      using skip(2) Cons.prems(2) by (rule Cons.IH)
    then obtain before after where
      p: "rest = before @ x # after"
      and a: "\<forall>after'. process_orders ch (before @ x # after') m = (m', calls, out)"
      by blast
    have a': "\<forall>after'. process_orders ch ((order # before) @ x # after') m = (m', calls, out)"
    proof
      fix after'
      have "process_orders ch (order # (before @ x # after')) m
              = process_orders ch (before @ x # after') m"
        using skip(1) by (rule process_orders_skip)
      then show "process_orders ch ((order # before) @ x # after') m = (m', calls, out)"
        using a by simp
    qed
    have p': "order # rest = (order # before) @ x # after"
      using p by simp
    have "\<exists>before after. order # rest = before @ x # after
            \<and> (\<forall>after'. process_orders ch (before @ x # after') m = (m', calls, out))"
      using p' a' by (intro exI conjI)
    then show ?thesis using ih by simp
  next
    case (fail msg)
    have x: "x = order" using Cons.prems(2) fail(5) by simp
    have a': "\<forall>after'. process_orders ch ([] @ x # after') m = (m', calls, out)"
    proof
      fix after'
      have "process_orders ch (order # after') m = (m, [(order, False)], Raised msg)"
        using fail(1,2,3) by (rule process_orders_fail)
      then show "process_orders ch ([] @ x # after') m = (m', calls, out)"
        using fail(4,5,6) x by simp
    qed
    have p': "order # rest = [] @ x # rest"
      using x by simp
    have "\<exists>before after. order # rest = before @ x # after
            \<and> (\<forall>after'. process_orders ch (before @ x # after') m = (m', calls, out))"
      using p' a' by (intro exI conjI)
    moreover have "last calls = (x, False)" and "\<forall>c\<in>set (butlast calls). snd c"
      using fail(5) x by simp_all
    ultimately show ?thesis by simp
  next
    case (sent calls')
    have mem: "(x, False) \<in> set calls'"
      using Cons.prems(2) sent(5) by simp
    have ih: "last calls' = (x, False) \<and> (\<forall>c\<in>set (butlast calls'). snd c)
       \<and> (\<exists>before after. rest = before @ x # after
             \<and> (\<forall>after'. process_orders ch (before @ x # after') (mark_processed order m)
                    = (m', calls', out)))"
      using sent(4) mem by (rule Cons.IH)
    then obtain before after where
      p: "rest = before @ x # after"
      and a: "\<forall>after'. process_orders ch (before @ x # after') (mark_processed order m)
                = (m', calls', out)"
      by blast
    have ne: "calls' \<noteq> []" using mem by auto
    have a': "\<forall>after'. process_orders ch ((order # before) @ x # after') m = (m', calls, out)"
    proof
      fix after'
      have "process_orders ch (before @ x # after') (mark_processed order m) = (m', calls', out)"
        using a by simp
      then have "process_orders ch (order # (before @ x # after')) m
                   = (m', (order, True) # calls', out)"
        by (rule process_orders_sent [OF sent(1,2,3)])
      then show "process_orders ch ((order # before) @ x # after') m = (m', calls, out)"
        using sent(5) by simp
    qed
    have p': "order # rest = (order # before) @ x # after"
      using p by simp
    have "\<exists>before after. order # rest = before @ x # after
            \<and> (\<forall>after'. process_orders ch (before @ x # after') m = (m', calls, out))"
      using p' a' by (intro exI conjI)
    moreover have "last calls = (x, False)"
      using ih ne sent(5) by simp
    moreover have "\<forall>c\<in>set (butlast calls). snd c"
      using ih ne sent(5) by simp
    ultimately show ?thesis by simp
  qed
qed

section \<open>The fetch cycle\<close>

lemma check_orders_unfold:
  "check_orders t m =
     (case get_channel t (channel_id m) of
        None \<Rightarrow> (snd (fetch_orders (requests_get t) m), [], Returned)
      | Some ch \<Rightarrow>
          process_orders ch (fst (fetch_orders (requests_get t) m))
            (snd (fetch_orders (requests_get t) m)))"
proof -
  obtain orders m1 where f: "fetch_orders (requests_get t) m = (orders, m1)"
    by (cases "fetch_orders (requests_get t) m") auto
  have "channel_id m1 = channel_id m"
    using fetch_orders_channel_id [of "requests_get t" m] f by simp
  then show ?thesis
    by (simp add: check_orders_def f split: option.splits)
qed

lemma check_orders_cases:
  assumes "check_orders t m = (m', calls, out)"
  obtains (no_channel) "get_channel t (channel_id m) = None"
      "m' = snd (fetch_orders (requests_get t) m)" "calls = []" "out = Returned"
  | (channel) ch where "get_channel t (channel_id m) = Some ch"
      "process_orders ch (fst (fetch_orders (requests_get t) m))
         (snd (fetch_orders (requests_get t) m)) = (m', calls, out)"
proof (cases "get_channel t (channel_id m)")
  case None
  then show ?thesis
    using assms no_channel by (simp add: check_orders_unfold)
next
  case (Some ch)
  then show ?thesis
    using assms channel by (simp add: check_orders_unfold)
qed

lemma check_orders_mono:
  assumes "check_orders t m = (m', calls, out)"
  shows "processed_orders m \<subseteq> processed_orders m'"
  using assms
proof (cases rule: check_orders_cases)
  case no_channel
  then show ?thesis by simp
next
  case (channel ch)
  then show ?thesis using process_orders_mono [OF channel(2)] by simp
qed

lemma check_orders_calls:
  assumes "check_orders t m = (m', calls, out)" and "c \<in> set calls"
  shows "fst c \<in> set (fst (fetch_orders (requests_get t) m))
         \<and> status (fst c) = ''completed'' \<and> order_id (fst c) \<notin> processed_orders m"
  using assms(1)
proof (cases rule: check_orders_cases)
  case no_channel
  then show ?thesis using assms(2) by simp
next
  case (channel ch)
  then show ?thesis using process_orders_calls [OF channel(2) assms(2)] by simp
qed

lemma check_orders_added:
  assumes "check_orders t m = (m', calls, out)"
  shows "processed_orders m' =
           processed_orders m \<union> {order_id (fst c) | c. c \<in> set calls \<and> snd c}"
  using assms
proof (cases rule: check_orders_cases)
  case no_channel
  then show ?thesis by simp
next
  case (channel ch)
  then show ?thesis using process_orders_added [OF channel(2)] by simp
qed

lemma check_orders_state:
  assumes "check_orders t m = (m', calls, out)"
  shows "m' = fold mark_processed (map fst (filter snd calls))
                (snd (fetch_orders (requests_get t) m))"
  using assms
proof (cases rule: check_orders_cases)
  case no_channel
  then show ?thesis by simp
next
  case (channel ch)
  then show ?thesis using process_orders_state [OF channel(2)] by simp
qed

lemma check_orders_once:
  assumes "check_orders t m = (m', calls, out)"
      and "calls_for i calls = c # later" and "snd c"
  shows "later = []"
  using assms(1)
proof (cases rule: check_orders_cases)
  case no_channel
  then show ?thesis using assms(2) by (simp add: calls_for_def)
next
  case (channel ch)
  then show ?thesis using process_orders_once [OF channel(2) assms(2,3)] by simp
qed

lemma check_example_tick:
  "make_orders xs = Inr orders \<Longrightarrow>
   check_orders (example_tick xs (Some ch)) m = process_orders ch orders m"
  by (simp add: check_orders_def fetch_orders_def example_tick_def)

lemma example_page: "make_orders [Object example_record] = Inr [example_order]"
  by (simp add: example_make_order del: make_order.simps)

lemma example_new: "order_id example_order \<notin> processed_orders example_monitor"
  by (simp add: example_monitor_def init_monitor_def)

lemma example_status: "status example_order = ''completed''"
  by (simp add: example_order_def)

lemma example_failed_cycle:
  "check_orders (example_tick [Object example_record] (Some failing_channel)) example_monitor
     = (example_monitor, [(example_order, False)], Raised ''send failed'')"
proof -
  have s: "send_notification failing_channel example_order = Some ''send failed''"
    by (simp add: send_notification_def failing_channel_def)
  have "process_orders failing_channel [example_order] example_monitor
          = (example_monitor, [(example_order, False)], Raised ''send failed'')"
    using example_status example_new s by (rule process_orders_fail)
  then show ?thesis
    by (simp only: check_example_tick [OF example_page])
qed

lemma example_sent_cycle:
  "check_orders (example_tick [Object example_record] (Some accepting_channel)) example_monitor
     = (mark_processed example_order example_monitor, [(example_order, True)], Returned)"
proof -
  have s: "send_notification accepting_channel example_order = None"
    by (simp add: send_notification_def accepting_channel_def)
  have "process_orders accepting_channel [example_order] example_monitor
          = (mark_processed example_order example_monitor, [(example_order, True)], Returned)"
    using example_status example_new s by (rule process_orders_sent) simp
  then show ?thesis
    by (simp only: check_example_tick [OF example_page])
qed

lemma example_seen_cycle:
  "check_orders (example_tick [Object example_record] (Some accepting_channel))
     (mark_processed example_order example_monitor)
     = (mark_processed example_order example_monitor, [], Returned)"
proof -
  have "process_orders accepting_channel [example_order]
          (mark_processed example_order example_monitor)
          = (mark_processed example_order example_monitor, [], Returned)"
    by simp
  then show ?thesis
    by (simp only: check_example_tick [OF example_page])
qed

text \<open>
  Claim C3. An order whose status is not \<open>completed\<close> is passed over by the loop whatever
  \<open>processed_orders\<close> holds: the turn of the loop for it does nothing. So no cycle calls
  \<open>send_notification\<close> for it, and its id does not enter \<open>processed_orders\<close> in that
  cycle; an id enters only through a completed order, so the last part is said for a page
  that has no completed order under the same id, as it is when ids are unique.
\<close>

theorem status_filter:
  assumes "check_orders t m = (m', calls, out)"
      and "x \<in> set (fst (fetch_orders (requests_get t) m))"
      and "status x \<noteq> ''completed''"
  shows "(\<forall>ch rest m0. process_orders ch (x # rest) m0 = process_orders ch rest m0)
         \<and> x \<notin> fst ` set calls
         \<and> ((\<forall>y\<in>set (fst (fetch_orders (requests_get t) m)).
                order_id y = order_id x \<longrightarrow> status y \<noteq> ''completed'')
            \<longrightarrow> (order_id x \<in> processed_orders m' \<longleftrightarrow> order_id x \<in> processed_orders m))"
proof (intro conjI impI allI)
  fix ch rest m0
  show "process_orders ch (x # rest) m0 = process_orders ch rest m0"
    using assms(3) by (simp add: process_orders_skip)
next
  show "x \<notin> fst ` set calls"
    using check_orders_calls [OF assms(1)] assms(3) by auto
next
  assume other: "\<forall>y\<in>set (fst (fetch_orders (requests_get t) m)).
                   order_id y = order_id x \<longrightarrow> status y \<noteq> ''completed''"
  have "order_id x \<notin> {order_id (fst c) | c. c \<in> set calls \<and> snd c}"
    using check_orders_calls [OF assms(1)] other by fastforce
  then show "order_id x \<in> processed_orders m' \<longleftrightarrow> order_id x \<in> processed_orders m"
    unfolding check_orders_added [OF assms(1)] by blast
qed

theorem status_filter_witness:
  "check_orders (example_tick [Object pending_record] (Some accepting_channel)) example_monitor
     = (example_monitor, [], Returned)
   \<and> pending_order \<in> set (fst (fetch_orders
        (requests_get (example_tick [Object pending_record] (Some accepting_channel)))
        example_monitor))
   \<and> status pending_order \<noteq> ''completed''
   \<and> pending_order \<notin> fst ` set ([] :: notify_call list)
   \<and> order_id pending_order \<notin> processed_orders example_monitor"
proof -
  let ?t = "example_tick [Object pending_record] (Some accepting_channel)"
  have mk: "make_orders [Object pending_record] = Inr [pending_order]"
    by (simp add: make_pending_order del: make_order.simps)
  have f: "fetch_orders (requests_get ?t) example_monitor = ([pending_order], example_monitor)"
    using mk by (rule fetch_example_tick)
  have h3: "status pending_order \<noteq> ''completed''"
    by (simp add: pending_order_def)
  have h1: "check_orders ?t example_monitor = (example_monitor, [], Returned)"
    using h3 by (simp add: check_example_tick [OF mk])
  have h2: "pending_order \<in> set (fst (fetch_orders (requests_get ?t) example_monitor))"
    by (simp add: f)
  have "order_id pending_order \<notin> processed_orders example_monitor"
    by (simp add: example_monitor_def init_monitor_def)
  then show ?thesis
    using h1 h2 h3 status_filter [OF h1 h2 h3] by simp
qed

text \<open>
  Claim C9. When \<open>bot.get_channel\<close> finds no channel the cycle ends right after the
  fetch: the state is the one \<open>fetch_orders\<close> left, no notification is sent and
  \<open>processed_orders\<close> is as before, whatever the page holds, so its completed orders are
  still new to the next cycle.
\<close>

theorem missing_channel_skips_dispatch:
  assumes "get_channel t (channel_id m) = None"
  shows "check_orders t m = (snd (fetch_orders (requests_get t) m), [], Returned)
         \<and> processed_orders (snd (fetch_orders (requests_get t) m)) = processed_orders m"
  using assms by (simp add: check_orders_unfold)

theorem missing_channel_skips_dispatch_witness:
  "get_channel (example_tick [Object example_record] None) (channel_id example_monitor) = None
   \<and> check_orders (example_tick [Object example_record] None) example_monitor
       = (example_monitor, [], Returned)"
proof -
  let ?t = "example_tick [Object example_record] None"
  have h: "get_channel ?t (channel_id example_monitor) = None"
    by (simp add: example_tick_def)
  have f: "fetch_orders (requests_get ?t) example_monitor = ([example_order], example_monitor)"
    using example_page by (rule fetch_example_tick)
  show ?thesis
    using h missing_channel_skips_dispatch [OF h] by (simp add: f)
qed

lemma make_second_order: "make_order (Object second_record) = Inr second_order"
  by (simp add: second_record_def second_order_def example_record_def example_order_def)

lemma two_page: "make_orders [Object example_record, Object second_record]
                   = Inr [example_order, second_order]"
  by (simp add: example_make_order make_second_order del: make_order.simps)

lemma example_rejected_cycle:
  "check_orders (example_tick [Object example_record, Object second_record]
                   (Some rejecting_first)) example_monitor
     = (example_monitor, [(example_order, False)], Raised ''send failed'')"
proof -
  have s: "send_notification rejecting_first example_order = Some ''send failed''"
    by (simp add: send_notification_def rejecting_first_def)
  have "process_orders rejecting_first [example_order, second_order] example_monitor
          = (example_monitor, [(example_order, False)], Raised ''send failed'')"
    using example_status example_new s by (rule process_orders_fail)
  then show ?thesis
    by (simp only: check_example_tick [OF two_page])
qed

lemma example_retry_cycle:
  "check_orders (example_tick [Object example_record, Object second_record]
                   (Some accepting_channel)) example_monitor
     = (mark_processed second_order (mark_processed example_order example_monitor),
        [(example_order, True), (second_order, True)], Returned)"
proof -
  have s1: "send_notification accepting_channel example_order = None"
    by (simp add: send_notification_def accepting_channel_def)
  have s2: "send_notification accepting_channel second_order = None"
    by (simp add: send_notification_def accepting_channel_def)
  have st2: "status second_order = ''completed''"
    by (simp add: second_order_def example_order_def)
  have new2: "order_id second_order \<notin> processed_orders (mark_processed example_order example_monitor)"
    by (simp add: second_order_def example_order_def example_monitor_def init_monitor_def)
  have p2: "process_orders accepting_channel [second_order]
              (mark_processed example_order example_monitor)
            = (mark_processed second_order (mark_processed example_order example_monitor),
               [(second_order, True)], Returned)"
    using st2 new2 s2 by (rule process_orders_sent) simp
  have "process_orders accepting_channel [example_order, second_order] example_monitor
          = (mark_processed second_order (mark_processed example_order example_monitor),
             [(example_order, True), (second_order, True)], Returned)"
    using example_status example_new s1 p2 by (rule process_orders_sent)
  then show ?thesis
    by (simp only: check_example_tick [OF two_page])
qed

text \<open>
  Claim C2, as the code has it. When the send for an order fails, the exception leaves
  \<open>check_orders\<close>: the failed send is the last call of the cycle, every call before it
  returned, and the orders after it in the page are not processed, whatever they are. The
  state of the cycle is the one made by the sends that returned, so nothing is logged for
  the failure and the id of the order is not in \<open>processed_orders\<close>. In the next cycle,
  if the channel is found and the page still holds the order, \<open>send_notification\<close> is
  called for its id again, unless that cycle is ended by a failed send first.
\<close>

theorem failed_notify_is_retried:
  assumes "check_orders t m = (m', calls, out)" and "(x, False) \<in> set calls"
      and "check_orders t2 m' = (m'', calls2, out2)"
      and "get_channel t2 (channel_id m') = Some ch"
      and "x \<in> set (fst (fetch_orders (requests_get t2) m'))"
  shows "(\<exists>msg. out = Raised msg)
         \<and> last calls = (x, False) \<and> (\<forall>c\<in>set (butlast calls). snd c)
         \<and> (\<exists>ch1 before after.
               get_channel t (channel_id m) = Some ch1
               \<and> fst (fetch_orders (requests_get t) m) = before @ x # after
               \<and> (\<forall>after'. process_orders ch1 (before @ x # after')
                               (snd (fetch_orders (requests_get t) m)) = (m', calls, out)))
         \<and> m' = fold mark_processed (map fst (filter snd calls))
                  (snd (fetch_orders (requests_get t) m))
         \<and> order_id x \<notin> processed_orders m'
         \<and> ((\<exists>c\<in>set calls2. order_id (fst c) = order_id x) \<or> (\<exists>msg. out2 = Raised msg))"
proof -
  have st: "status x = ''completed''"
    using check_orders_calls [OF assms(1,2)] by simp
  from assms(1) have first:
    "order_id x \<notin> processed_orders m' \<and> (\<exists>msg. out = Raised msg)
     \<and> last calls = (x, False) \<and> (\<forall>c\<in>set (butlast calls). snd c)
     \<and> (\<exists>ch1 before after.
           get_channel t (channel_id m) = Some ch1
           \<and> fst (fetch_orders (requests_get t) m) = before @ x # after
           \<and> (\<forall>after'. process_orders ch1 (before @ x # after')
                           (snd (fetch_orders (requests_get t) m)) = (m', calls, out)))"
  proof (cases rule: check_orders_cases)
    case no_channel
    then show ?thesis using assms(2) by simp
  next
    case (channel c)
    have e: "last calls = (x, False) \<and> (\<forall>c\<in>set (butlast calls). snd c)
       \<and> (\<exists>before after. fst (fetch_orders (requests_get t) m) = before @ x # after
             \<and> (\<forall>after'. process_orders c (before @ x # after')
                             (snd (fetch_orders (requests_get t) m)) = (m', calls, out)))"
      using channel(2) assms(2) by (rule failed_send_ends_loop)
    then obtain before after where
      p: "fst (fetch_orders (requests_get t) m) = before @ x # after"
      and a: "\<forall>after'. process_orders c (before @ x # after')
                          (snd (fetch_orders (requests_get t) m)) = (m', calls, out)"
      by blast
    have "\<exists>ch1 before after.
           get_channel t (channel_id m) = Some ch1
           \<and> fst (fetch_orders (requests_get t) m) = before @ x # after
           \<and> (\<forall>after'. process_orders ch1 (before @ x # after')
                           (snd (fetch_orders (requests_get t) m)) = (m', calls, out))"
      using channel(1) p a by (intro exI conjI)
    then show ?thesis
      using e failed_notify_not_marked [OF channel(2) assms(2)] by simp
  qed
  from assms(3) have again:
    "(\<exists>c\<in>set calls2. order_id (fst c) = order_id x) \<or> (\<exists>msg. out2 = Raised msg)"
  proof (cases rule: check_orders_cases)
    case no_channel
    then show ?thesis using assms(4) by simp
  next
    case (channel c)
    have "order_id x \<notin> processed_orders (snd (fetch_orders (requests_get t2) m'))"
      using first by simp
    then show ?thesis
      using eligible_order_is_attempted [OF channel(2) assms(5) st] by simp
  qed
  have state: "m' = fold mark_processed (map fst (filter snd calls))
                      (snd (fetch_orders (requests_get t) m))"
    using assms(1) by (rule check_orders_state)
  have f1: "\<exists>msg. out = Raised msg"
    and f2: "last calls = (x, False)"
    and f3: "\<forall>c\<in>set (butlast calls). snd c"
    and f4: "\<exists>ch1 before after.
           get_channel t (channel_id m) = Some ch1
           \<and> fst (fetch_orders (requests_get t) m) = before @ x # after
           \<and> (\<forall>after'. process_orders ch1 (before @ x # after')
                           (snd (fetch_orders (requests_get t) m)) = (m', calls, out))"
    and f5: "order_id x \<notin> processed_orders m'"
    using first by blast+
  show ?thesis
    by (intro conjI f1 f2 f3 f4 state f5 again)
qed

theorem failed_notify_is_retried_witness:
  "check_orders (example_tick [Object example_record, Object second_record]
                   (Some rejecting_first)) example_monitor
     = (example_monitor, [(example_order, False)], Raised ''send failed'')
   \<and> check_orders (example_tick [Object example_record, Object second_record]
                     (Some accepting_channel)) example_monitor
     = (mark_processed second_order (mark_processed example_order example_monitor),
        [(example_order, True), (second_order, True)], Returned)
   \<and> last [(example_order, False)] = (example_order, False)
   \<and> order_id second_order \<notin> processed_orders example_monitor
   \<and> order_id example_order \<notin> processed_orders example_monitor
   \<and> (\<exists>c\<in>set [(example_order, True), (second_order, True)].
         order_id (fst c) = order_id example_order)"
proof -
  let ?t2 = "example_tick [Object example_record, Object second_record]
               (Some accepting_channel)"
  have h2: "(example_order, False) \<in> set [(example_order, False)]"
    by simp
  have h4: "get_channel ?t2 (channel_id example_monitor) = Some accepting_channel"
    by (simp add: example_tick_def)
  have h5: "example_order \<in> set (fst (fetch_orders (requests_get ?t2) example_monitor))"
    by (simp add: fetch_example_tick [OF two_page])
  have n2: "order_id second_order \<notin> processed_orders example_monitor"
    by (simp add: example_monitor_def init_monitor_def)
  have "order_id example_order \<notin> processed_orders example_monitor
        \<and> (\<exists>c\<in>set [(example_order, True), (second_order, True)].
              order_id (fst c) = order_id example_order)"
    using failed_notify_is_retried [OF example_rejected_cycle h2 example_retry_cycle h4 h5]
    by simp
  then show ?thesis
    using example_rejected_cycle example_retry_cycle n2 by simp
qed

text \<open>
  The claim as written has the error logged. Here the send fails: the exception leaves
  the cycle and the log is what it was.
\<close>

theorem failed_notify_not_logged_counterexample:
  "(example_order, False)
     \<in> set (fst (snd (check_orders
         (example_tick [Object example_record] (Some failing_channel)) example_monitor)))
   \<and> gui_log (fst (check_orders
         (example_tick [Object example_record] (Some failing_channel)) example_monitor))
       = gui_log example_monitor
   \<and> snd (snd (check_orders
         (example_tick [Object example_record] (Some failing_channel)) example_monitor))
       = Raised ''send failed''"
  by (simp add: example_failed_cycle)

section \<open>Runs of the task loop\<close>

lemma run_Cons:
  "check_orders t m = (m1, calls1, out) \<Longrightarrow> run ts m1 = (m2, calls2) \<Longrightarrow>
   run (t # ts) m = (m2, calls1 @ calls2)"
  by simp

lemma run_step:
  obtains m1 calls1 out m2 calls2 where
    "check_orders t m = (m1, calls1, out)" "run ts m1 = (m2, calls2)"
    "run (t # ts) m = (m2, calls1 @ calls2)"
proof -
  obtain m1 calls1 out where c: "check_orders t m = (m1, calls1, out)"
    by (cases "check_orders t m") auto
  obtain m2 calls2 where r: "run ts m1 = (m2, calls2)"
    by (cases "run ts m1") auto
  show ?thesis
    using that [OF c r run_Cons [OF c r]] .
qed

lemma run_mono:
  "run ts m = (m', calls) \<Longrightarrow> processed_orders m \<subseteq> processed_orders m'"
proof (induction ts arbitrary: m m' calls)
  case Nil
  then show ?case by simp
next
  case (Cons t ts)
  obtain m1 calls1 out m2 calls2 where
    c: "check_orders t m = (m1, calls1, out)" and r: "run ts m1 = (m2, calls2)"
    and s: "run (t # ts) m = (m2, calls1 @ calls2)"
    by (rule run_step)
  have "m' = m2" using s Cons.prems by simp
  then show ?case using check_orders_mono [OF c] Cons.IH [OF r] by blast
qed

text \<open>An id in \<open>processed_orders\<close> is passed over by every later cycle.\<close>

lemma run_skips_seen:
  "run ts m = (m', calls) \<Longrightarrow> i \<in> processed_orders m \<Longrightarrow> calls_for i calls = []"
proof (induction ts arbitrary: m m' calls)
  case Nil
  then show ?case by (simp add: calls_for_def)
next
  case (Cons t ts)
  obtain m1 calls1 out m2 calls2 where
    c: "check_orders t m = (m1, calls1, out)" and r: "run ts m1 = (m2, calls2)"
    and s: "run (t # ts) m = (m2, calls1 @ calls2)"
    by (rule run_step)
  have calls: "calls = calls1 @ calls2" using s Cons.prems(1) by simp
  have "calls_for i calls1 = []"
    using check_orders_calls [OF c] Cons.prems(2)
    by (auto simp: calls_for_def filter_empty_conv)
  moreover have "i \<in> processed_orders m1"
    using check_orders_mono [OF c] Cons.prems(2) by blast
  then have "calls_for i calls2 = []"
    using Cons.IH [OF r] by simp
  ultimately show ?case by (simp add: calls calls_for_def)
qed

text \<open>
  Claim C1. In any run of the loop, whatever the pages, the channel and the state at the
  start: if the first call of \<open>send_notification\<close> for an order id returns, it is the
  only call for that id in the run, and the id is in \<open>processed_orders\<close> at the end. In
  particular a completed order that every cycle fetches again is notified once.
\<close>

theorem no_duplicate_notification:
  assumes "run ticks m = (m', calls)"
      and "calls_for i calls = c # later" and "snd c"
  shows "later = [] \<and> i \<in> processed_orders m'"
  using assms
proof (induction ticks arbitrary: m m' calls)
  case Nil
  then show ?case by (simp add: calls_for_def)
next
  case (Cons t ts)
  obtain m1 calls1 out m2 calls2 where
    c: "check_orders t m = (m1, calls1, out)" and r: "run ts m1 = (m2, calls2)"
    and s: "run (t # ts) m = (m2, calls1 @ calls2)"
    by (rule run_step)
  have calls: "calls = calls1 @ calls2" and m': "m' = m2"
    using s Cons.prems(1) by simp_all
  have split: "calls_for i calls1 @ calls_for i calls2 = c # later"
    using Cons.prems(2) by (simp add: calls calls_for_def)
  show ?case
  proof (cases "calls_for i calls1")
    case Nil
    then have "calls_for i calls2 = c # later" using split by simp
    then show ?thesis using Cons.IH [OF r _ Cons.prems(3)] m' by simp
  next
    case (Cons c1 later1)
    then have c1: "c1 = c" using split by simp
    have l1: "later1 = []"
      using check_orders_once [OF c Cons] Cons.prems(3) c1 by simp
    have "c \<in> set (calls_for i calls1)"
      using Cons c1 by simp
    then have "c \<in> set calls1" and "order_id (fst c) = i"
      by (simp_all add: calls_for_def)
    then have "i \<in> {order_id (fst c) | c. c \<in> set calls1 \<and> snd c}"
      using Cons.prems(3) by blast
    then have seen: "i \<in> processed_orders m1"
      unfolding check_orders_added [OF c] by (rule UnI2)
    then have "calls_for i calls2 = []"
      using run_skips_seen [OF r] by simp
    moreover have "i \<in> processed_orders m2"
      using run_mono [OF r] seen by blast
    ultimately show ?thesis using split Cons l1 m' by simp
  qed
qed

text \<open>Two cycles that both fetch the completed order \<open>A\<close>: one call, in the first.\<close>

theorem no_duplicate_notification_witness:
  "run [example_tick [Object example_record] (Some accepting_channel),
        example_tick [Object example_record] (Some accepting_channel)] example_monitor
     = (mark_processed example_order example_monitor, [(example_order, True)])
   \<and> calls_for ''A'' [(example_order, True)] = (example_order, True) # []
   \<and> ''A'' \<in> processed_orders (mark_processed example_order example_monitor)"
proof -
  let ?t = "example_tick [Object example_record] (Some accepting_channel)"
  have r: "run [?t, ?t] example_monitor
             = (mark_processed example_order example_monitor, [(example_order, True)])"
    using run_Cons [OF example_sent_cycle run_Cons [OF example_seen_cycle run.simps(1)]]
    by simp
  have f: "calls_for ''A'' [(example_order, True)] = (example_order, True) # []"
    by (simp add: calls_for_def example_order_def)
  have "''A'' \<in> processed_orders (mark_processed example_order example_monitor)"
    using no_duplicate_notification [OF r f] by simp
  with r f show ?thesis by blast
qed

section \<open>Stopping\<close>

lemma stop_bot_running:
  "bot_running m \<Longrightarrow>
   task_stop_calls (stop_bot is_closed m) = Suc (task_stop_calls m)
   \<and> \<not> bot_running (stop_bot is_closed m)"
  by (simp add: stop_bot_def log_def Let_def)

text \<open>
  Claim C8. \<open>stop_bot\<close> on a monitor that is not running returns at once: the flag, the
  processed orders, the log, the task and the connection are all as they were.
\<close>

theorem stop_when_stopped_is_noop:
  assumes "\<not> bot_running m"
  shows "stop_bot is_closed m = m"
  using assms by (simp add: stop_bot_def)

theorem stop_when_stopped_is_noop_witness:
  "\<not> bot_running example_monitor \<and> stop_bot False example_monitor = example_monitor"
proof -
  have h: "\<not> bot_running example_monitor"
    by (simp add: example_monitor_def init_monitor_def)
  show ?thesis
    using h stop_when_stopped_is_noop [OF h] by simp
qed

end
